theory Spec2Isabelle
  imports Complex_Main "HOL-Library.AList"
begin

section \<open>Strings and characters\<close>

text \<open>
  Python strings are sequences of code points; a \<^typ>\<open>char\<close> stands for a code point
  below 256. \<open>isspace\<close> is the class used by \<^verbatim>\<open>str.strip()\<close>, by \<^verbatim>\<open>str.isspace()\<close>
  and by the pattern \<^verbatim>\<open>\s\<close> on \<^verbatim>\<open>str\<close>: on these code points it holds for
  9..13, 28..32, 133 and 160.
\<close>

definition isspace :: "char \<Rightarrow> bool" where
  "isspace c =
     (let n = (of_char c :: nat)
      in (9 \<le> n \<and> n \<le> 13) \<or> (28 \<le> n \<and> n \<le> 32) \<or> n = 133 \<or> n = 160)"

definition strip :: "string \<Rightarrow> string" where
  "strip s = rev (dropWhile isspace (rev (dropWhile isspace s)))"

definition isdigit :: "char \<Rightarrow> bool" where
  "isdigit c = (let n = (of_char c :: nat) in 48 \<le> n \<and> n \<le> 57)"

definition digit_val :: "char \<Rightarrow> nat" where
  "digit_val c = (of_char c :: nat) - 48"

definition lower_char :: "char \<Rightarrow> char" where
  "lower_char c =
     (let n = (of_char c :: nat)
      in if (65 \<le> n \<and> n \<le> 90) \<or> (192 \<le> n \<and> n \<le> 222 \<and> n \<noteq> 215)
         then char_of (n + 32) else c)"

definition lower :: "string \<Rightarrow> string" where
  "lower s = map lower_char s"

section \<open>Errors\<close>

datatype error =
    ValueError string
  | TypeError
  | OverflowError
  | AttributeError
  | RequestError string

section \<open>Speaker anonymizer\<close>

text \<open>
  \<^verbatim>\<open>_index_to_letters\<close>: the loop appends the letter of \<open>i mod 26\<close>, stops when the
  quotient is zero and otherwise continues with the quotient minus one. The guard
  \<open>i < 0\<close> raises before the loop, so the loop itself runs on naturals.
\<close>

function letters_loop :: "nat \<Rightarrow> string \<Rightarrow> string" where
  "letters_loop i letters =
     (let q = i div 26;
          rem = i mod 26;
          letters' = letters @ [char_of ((of_char CHR ''A'' :: nat) + rem)]
      in if q = 0 then letters' else letters_loop (q - 1) letters')"
  by pat_completeness auto
termination
  by (relation "measure (\<lambda>(i, letters). i)") auto

definition index_to_letters :: "int \<Rightarrow> error + string" where
  "index_to_letters i =
     (if i < 0 then Inl (ValueError ''Index must be non-negative'')
      else Inr (rev (letters_loop (nat i) [])))"

text \<open>
  The speaker map is a Python dict from author token to label: an association list in
  insertion order, whose length is \<^verbatim>\<open>len(mapping)\<close>.
\<close>

type_synonym speaker_map = "(string \<times> string) list"

text \<open>
  The first three lines of \<^verbatim>\<open>_assign_speaker\<close>: \<^verbatim>\<open>(raw_author or "").strip()\<close>, replaced
  by the sentinel when empty.
\<close>

definition author_key :: "string option \<Rightarrow> string" where
  "author_key raw_author =
     (let a = strip (case raw_author of None \<Rightarrow> [] | Some s \<Rightarrow> s)
      in if a = [] then ''__unknown__'' else a)"

definition assign_speaker ::
  "string option \<Rightarrow> speaker_map \<Rightarrow> error + (string \<times> speaker_map)" where
  "assign_speaker raw_author mapping =
     (let a = author_key raw_author
      in case map_of mapping a of
           Some label \<Rightarrow> Inr (label, mapping)
         | None \<Rightarrow>
             (case index_to_letters (int (length mapping)) of
                Inl e \<Rightarrow> Inl e
              | Inr label \<Rightarrow> Inr (label, mapping @ [(a, label)])))"

section \<open>Text cleaning\<close>

text \<open>
  \<^verbatim>\<open>_clean_text\<close>: \<^verbatim>\<open>replace("\r\n", "\n")\<close>, \<^verbatim>\<open>replace("\r", "\n")\<close>, the substitution of
  every maximal run of whitespace by one space, and \<^verbatim>\<open>strip()\<close>.
\<close>

fun replace_crlf :: "string \<Rightarrow> string" where
  "replace_crlf [] = []"
| "replace_crlf [c] = [c]"
| "replace_crlf (c # d # cs) =
     (if c = CHR 0x0D \<and> d = CHR 0x0A then CHR 0x0A # replace_crlf cs
      else c # replace_crlf (d # cs))"

definition replace_cr :: "string \<Rightarrow> string" where
  "replace_cr s = map (\<lambda>c. if c = CHR 0x0D then CHR 0x0A else c) s"

function ws_sub :: "string \<Rightarrow> string" where
  "ws_sub [] = []"
| "ws_sub (c # cs) =
     (if isspace c then CHR '' '' # ws_sub (dropWhile isspace cs) else c # ws_sub cs)"
  by pat_completeness auto
termination
  by (relation "measure length") (auto simp: length_dropWhile_le less_Suc_eq_le)

definition clean_text :: "string option \<Rightarrow> string" where
  "clean_text text =
     (case text of
        None \<Rightarrow> []
      | Some s \<Rightarrow> strip (ws_sub (replace_cr (replace_crlf s))))"

section \<open>JSON values and Python's \<^verbatim>\<open>int()\<close>\<close>

text \<open>
  The values \<^verbatim>\<open>json.loads\<close> produces. A float is a finite double, which is a rational
  number, or one of the three special values (\<^verbatim>\<open>json.loads\<close> accepts \<^verbatim>\<open>NaN\<close> and
  \<^verbatim>\<open>Infinity\<close>). A JSON object is a dict: its items in insertion order.
\<close>

datatype pyfloat = Finite rat | PosInf | NegInf | NaN

datatype json =
    JNull
  | JBool bool
  | JInt int
  | JFloat pyfloat
  | JStr string
  | JList "json list"
  | JObj "(string \<times> json) list"

text \<open>
  The built-in \<^verbatim>\<open>int(x)\<close>. On a string: surrounding whitespace is skipped, one sign is
  allowed, then decimal digits, where single underscores may separate digits. The
  whitespace \<^verbatim>\<open>int()\<close> skips is not the class of \<^verbatim>\<open>str.strip()\<close>: it is the ASCII
  whitespace 9..13 and 32, and the whitespace beyond ASCII (133 and 160 on these code
  points); the separators 28..31 are not skipped, so \<^verbatim>\<open>int("\x1c5")\<close> raises
  \<^verbatim>\<open>ValueError\<close>. On a float: truncation toward zero, \<^verbatim>\<open>ValueError\<close> on NaN and
  \<^verbatim>\<open>OverflowError\<close> on an infinity. On a bool: 0 or 1. On \<^verbatim>\<open>None\<close>, a list or a dict:
  \<^verbatim>\<open>TypeError\<close>. (The interpreter's configurable limit on the number of digits of a
  string is not part of the model.)
\<close>

definition isspace_int :: "char \<Rightarrow> bool" where
  "isspace_int c =
     (let n = (of_char c :: nat)
      in (9 \<le> n \<and> n \<le> 13) \<or> n = 32 \<or> n = 133 \<or> n = 160)"

definition strip_int :: "string \<Rightarrow> string" where
  "strip_int s = rev (dropWhile isspace_int (rev (dropWhile isspace_int s)))"

fun parse_digits :: "nat \<Rightarrow> string \<Rightarrow> nat option" where
  "parse_digits acc [] = Some acc"
| "parse_digits acc [c] = (if isdigit c then Some (acc * 10 + digit_val c) else None)"
| "parse_digits acc (c # d # cs) =
     (if isdigit c then parse_digits (acc * 10 + digit_val c) (d # cs)
      else if c = CHR ''_'' \<and> isdigit d then parse_digits (acc * 10 + digit_val d) cs
      else None)"

definition int_of_str :: "string \<Rightarrow> error + int" where
  "int_of_str s =
     (let t = strip_int s;
          neg = (t \<noteq> [] \<and> hd t = CHR ''-'');
          u = (if t \<noteq> [] \<and> (hd t = CHR ''-'' \<or> hd t = CHR ''+'') then tl t else t)
      in case u of
           [] \<Rightarrow> Inl (ValueError ''invalid literal for int()'')
         | c # cs \<Rightarrow>
             if isdigit c then
               (case parse_digits (digit_val c) cs of
                  None \<Rightarrow> Inl (ValueError ''invalid literal for int()'')
                | Some n \<Rightarrow> Inr (if neg then - int n else int n))
             else Inl (ValueError ''invalid literal for int()''))"

definition trunc_rat :: "rat \<Rightarrow> int" where
  "trunc_rat q = (if 0 \<le> q then \<lfloor>q\<rfloor> else \<lceil>q\<rceil>)"

fun py_int :: "json \<Rightarrow> error + int" where
  "py_int JNull = Inl TypeError"
| "py_int (JBool b) = Inr (if b then 1 else 0)"
| "py_int (JInt i) = Inr i"
| "py_int (JFloat (Finite q)) = Inr (trunc_rat q)"
| "py_int (JFloat NaN) = Inl (ValueError ''cannot convert float NaN to integer'')"
| "py_int (JFloat PosInf) = Inl OverflowError"
| "py_int (JFloat NegInf) = Inl OverflowError"
| "py_int (JStr s) = int_of_str s"
| "py_int (JList xs) = Inl TypeError"
| "py_int (JObj kvs) = Inl TypeError"

section \<open>Dialogue rehydrator\<close>

text \<open>
  The accumulated posts: post number to (author token, text). A turn is
  \<^verbatim>\<open>[speaker, txt]\<close> or \<^verbatim>\<open>None\<close>.
\<close>

type_synonym post_map = "int \<rightharpoonup> string \<times> string"
type_synonym turn = "string list option"

text \<open>
  The body of \<^verbatim>\<open>for cid in chain\<close> in \<^verbatim>\<open>main\<close>, with the loop's variables
  \<^verbatim>\<open>out_turns\<close>, \<^verbatim>\<open>miss\<close> and \<^verbatim>\<open>speaker_map\<close> passed along. The \<^verbatim>\<open>try\<close> around
  \<^verbatim>\<open>int(cid)\<close> turns every exception into \<^verbatim>\<open>cid_int = None\<close>. The speaker is assigned
  before the text is cleaned, as in the source.
\<close>

fun chain_loop ::
  "post_map \<Rightarrow> json list \<Rightarrow> turn list \<Rightarrow> nat \<Rightarrow> speaker_map
     \<Rightarrow> error + (turn list \<times> nat \<times> speaker_map)" where
  "chain_loop posts [] out_turns miss speaker_map = Inr (out_turns, miss, speaker_map)"
| "chain_loop posts (cid # rest) out_turns miss speaker_map =
     (let cid_int = (case py_int cid of Inl e \<Rightarrow> None | Inr i \<Rightarrow> Some i)
      in case cid_int of
           None \<Rightarrow> chain_loop posts rest (out_turns @ [None]) (miss + 1) speaker_map
         | Some i \<Rightarrow>
             (case posts i of
                None \<Rightarrow> chain_loop posts rest (out_turns @ [None]) (miss + 1) speaker_map
              | Some (author_token, raw_txt) \<Rightarrow>
                  (case assign_speaker (Some author_token) speaker_map of
                     Inl e \<Rightarrow> Inl e
                   | Inr (speaker, speaker_map') \<Rightarrow>
                       (let txt = clean_text (Some raw_txt)
                        in if txt = []
                           then chain_loop posts rest (out_turns @ [None]) (miss + 1) speaker_map'
                           else chain_loop posts rest (out_turns @ [Some [speaker, txt]]) miss
                                  speaker_map'))))"

record miss_info =
  n_turns :: nat
  n_missing :: nat

text \<open>
  The loop \<^verbatim>\<open>for did, chain in dialogues.items()\<close>: a chain that is not a list is skipped;
  the two output dicts are updated at the key \<^verbatim>\<open>str(did)\<close> (a JSON key is a string).
\<close>

fun dialogues_loop ::
  "post_map \<Rightarrow> (string \<times> json) list \<Rightarrow> (string \<times> turn list) list
     \<Rightarrow> (string \<times> miss_info) list \<Rightarrow> speaker_map
     \<Rightarrow> error + ((string \<times> turn list) list \<times> (string \<times> miss_info) list \<times> speaker_map)" where
  "dialogues_loop posts [] rehydrated missing speaker_map =
     Inr (rehydrated, missing, speaker_map)"
| "dialogues_loop posts ((did, chain) # rest) rehydrated missing speaker_map =
     (case chain of
        JList c \<Rightarrow>
          (case chain_loop posts c [] 0 speaker_map of
             Inl e \<Rightarrow> Inl e
           | Inr (out_turns, miss, speaker_map') \<Rightarrow>
               dialogues_loop posts rest
                 (AList.update did out_turns rehydrated)
                 (AList.update did \<lparr>n_turns = length c, n_missing = miss\<rparr> missing)
                 speaker_map')
      | _ \<Rightarrow> dialogues_loop posts rest rehydrated missing speaker_map)"

section \<open>Pagination resolver\<close>

text \<open>
  What \<^verbatim>\<open>_find_next_url\<close> reads of a parsed page: its \<^verbatim>\<open>a\<close> elements in document
  order, each with the values of its multi-valued \<^verbatim>\<open>rel\<close> attribute, its \<^verbatim>\<open>href\<close>
  attribute if present, and its visible text \<^verbatim>\<open>get_text(" ", strip=True)\<close>. The page also
  carries the dict that \<^verbatim>\<open>_extract_posts\<close> returns for it.
\<close>

record anchor =
  a_rel :: "string list"
  a_href :: "string option"
  a_text :: string

record soup =
  anchors :: "anchor list"
  extracted :: post_map

text \<open>
  \<^verbatim>\<open>urljoin\<close> and the \<^verbatim>\<open>path\<close> component of \<^verbatim>\<open>urlparse\<close> belong to the standard
  library; they are parameters.
\<close>

record urllib =
  urljoin :: "string \<Rightarrow> string \<Rightarrow> string"
  url_path :: "string \<Rightarrow> string"

definition normalize_href :: "urllib \<Rightarrow> string \<Rightarrow> string \<Rightarrow> string option" where
  "normalize_href ul base_url href =
     (if href = [] then None
      else let href' = strip href
           in if href' = [] then None else Some (urljoin ul base_url href'))"

text \<open>\<^verbatim>\<open>a.get("href")\<close> when it is truthy: present and not empty.\<close>

definition get_href :: "anchor \<Rightarrow> string option" where
  "get_href a = (case a_href a of None \<Rightarrow> None | Some h \<Rightarrow> if h = [] then None else Some h)"

definition rstrip_slash :: "string \<Rightarrow> string" where
  "rstrip_slash p = rev (dropWhile (\<lambda>c. c = CHR ''/'') (rev p))"

definition digits_to_nat :: "string \<Rightarrow> nat" where
  "digits_to_nat ds = foldl (\<lambda>acc c. acc * 10 + digit_val c) 0 ds"

text \<open>
  \<^verbatim>\<open>re.search(r"/(\d+)$", p)\<close> followed by \<^verbatim>\<open>int(m.group(1))\<close>: the maximal run of digits
  at the end of \<open>p\<close> (before one final newline, where \<^verbatim>\<open>$\<close> also matches) when it is not
  empty and a slash precedes it.
\<close>

definition trailing_page :: "string \<Rightarrow> int option" where
  "trailing_page p =
     (let p' = (if p \<noteq> [] \<and> last p = CHR 0x0A then butlast p else p);
          r = rev p';
          ds = takeWhile isdigit r;
          rest = dropWhile isdigit r
      in if ds \<noteq> [] \<and> rest \<noteq> [] \<and> hd rest = CHR ''/''
         then Some (int (digits_to_nat (rev ds))) else None)"

text \<open>
  The second tier, \<^verbatim>\<open>for a in soup.find_all("a")\<close>: \<open>Some r\<close> when the loop returns
  \<open>r\<close>, \<open>None\<close> when it runs to its end.
\<close>

fun siguiente_loop :: "urllib \<Rightarrow> string \<Rightarrow> anchor list \<Rightarrow> string option option" where
  "siguiente_loop ul current_url [] = None"
| "siguiente_loop ul current_url (a # rest) =
     (let txt = lower (a_text a)
      in if txt = ''siguiente'' \<and> get_href a \<noteq> None
         then Some (normalize_href ul current_url (the (get_href a)))
         else siguiente_loop ul current_url rest)"

text \<open>The third tier's loop, filling the dict \<^verbatim>\<open>candidates\<close> from page number to URL.\<close>

fun candidates_loop ::
  "urllib \<Rightarrow> string \<Rightarrow> anchor list \<Rightarrow> (int \<times> string) list \<Rightarrow> (int \<times> string) list" where
  "candidates_loop ul current_url [] candidates = candidates"
| "candidates_loop ul current_url (a # rest) candidates =
     (case get_href a of
        None \<Rightarrow> candidates_loop ul current_url rest candidates
      | Some href \<Rightarrow>
          (case normalize_href ul current_url href of
             None \<Rightarrow> candidates_loop ul current_url rest candidates
           | Some absu \<Rightarrow>
               if absu = [] then candidates_loop ul current_url rest candidates
               else (case trailing_page (rstrip_slash (url_path ul absu)) of
                       None \<Rightarrow> candidates_loop ul current_url rest candidates
                     | Some page \<Rightarrow>
                         candidates_loop ul current_url rest
                           (AList.update page absu candidates))))"

definition pagination_fallback :: "urllib \<Rightarrow> string \<Rightarrow> soup \<Rightarrow> string option" where
  "pagination_fallback ul current_url sp =
     (let path = rstrip_slash (url_path ul current_url);
          cur_page = (case trailing_page path of Some n \<Rightarrow> n | None \<Rightarrow> 1);
          candidates = candidates_loop ul current_url (anchors sp) [];
          higher_pages = sort (filter (\<lambda>p. p > cur_page) (map fst candidates))
      in case higher_pages of
           [] \<Rightarrow> None
         | p # _ \<Rightarrow> map_of candidates p)"

definition find_next_url :: "urllib \<Rightarrow> string \<Rightarrow> soup \<Rightarrow> string option" where
  "find_next_url ul current_url sp =
     (let a = find (\<lambda>a. ''next'' \<in> set (a_rel a)) (anchors sp)
      in if a \<noteq> None \<and> get_href (the a) \<noteq> None
         then normalize_href ul current_url (the (get_href (the a)))
         else (case siguiente_loop ul current_url (anchors sp) of
                 Some nxt \<Rightarrow> nxt
               | None \<Rightarrow> pagination_fallback ul current_url sp))"

section \<open>Thread crawler\<close>

text \<open>
  \<^verbatim>\<open>_get_soup\<close> is the network: a function from URL to the parsed page or to the error
  that \<^verbatim>\<open>raise_for_status\<close> or the transport raises. The loop of
  \<^verbatim>\<open>scrape_thread_posts\<close> carries \<^verbatim>\<open>url\<close>, \<^verbatim>\<open>seen\<close>, \<^verbatim>\<open>all_posts\<close> and \<^verbatim>\<open>pages\<close>, and
  the list of the GET requests issued so far. An error of the fetch leaves the loop.
\<close>

record env =
  web :: "string \<Rightarrow> error + soup"
  lib :: urllib

function scrape_loop ::
  "env \<Rightarrow> int \<Rightarrow> string option \<Rightarrow> string set \<Rightarrow> post_map \<Rightarrow> int \<Rightarrow> string list
     \<Rightarrow> (error + post_map) \<times> string list" where
  "scrape_loop e max_pages url seen all_posts pages requests =
     (if url \<noteq> None \<and> the url \<noteq> [] \<and> the url \<notin> seen \<and> pages < max_pages then
        (let u = the url;
             seen' = insert u seen;
             pages' = pages + 1;
             requests' = requests @ [u]
         in case web e u of
              Inl err \<Rightarrow> (Inl err, requests')
            | Inr sp \<Rightarrow>
                scrape_loop e max_pages (find_next_url (lib e) u sp) seen'
                  (all_posts ++ extracted sp) pages' requests')
      else (Inr all_posts, requests))"
  by pat_completeness auto
termination
  by (relation "measure (\<lambda>(e, max_pages, url, seen, all_posts, pages, requests).
        nat (max_pages - pages))") auto

definition scrape_thread_posts ::
  "env \<Rightarrow> string \<Rightarrow> int \<Rightarrow> (error + post_map) \<times> string list" where
  "scrape_thread_posts e thread_url max_pages =
     scrape_loop e max_pages (Some thread_url) {} Map.empty 0 []"

section \<open>Entry point\<close>

record out_doc =
  format :: string
  source :: string
  thread_id :: json
  thread_url :: string
  snapshot_date :: json
  rehydrated_at :: string
  turn_representation :: string
  dialogues :: "(string \<times> turn list) list"
  missing :: "(string \<times> miss_info) list"
  notice :: string

text \<open>
  The effects of a run: the GET requests issued and the files written. The command line
  gives the output path and the page cap; the clock gives the date.
\<close>

record world =
  requests :: "string list"
  files :: "(string \<times> out_doc) list"

record args =
  output_path :: string
  max_pages :: int
  today :: string

definition obj_get :: "(string \<times> json) list \<Rightarrow> string \<Rightarrow> json" where
  "obj_get kvs k = (case map_of kvs k of None \<Rightarrow> JNull | Some v \<Rightarrow> v)"

text \<open>
  \<^verbatim>\<open>main\<close> from the parsed input \<^verbatim>\<open>obj\<close> on. \<^verbatim>\<open>obj.get\<close> exists on a dict only. The two
  guards raise \<^verbatim>\<open>ValueError\<close>; an exception of the crawl propagates after the requests
  it has made; the file is written at the end.
\<close>

definition main :: "env \<Rightarrow> args \<Rightarrow> json \<Rightarrow> world \<Rightarrow> (error + unit) \<times> world" where
  "main e ar obj w =
     (case obj of
        JObj kvs \<Rightarrow>
          (let thread_url_v = obj_get kvs ''thread_url'';
               dialogues_v = obj_get kvs ''dialogues'';
               no_thread_url = (Inl (ValueError
                 ''Missing 'thread_url' in dehydrated input. Rehydration is not possible.''), w);
               no_dialogues = (Inl (ValueError
                 ''Missing 'dialogues' dict in dehydrated input.''), w)
           in case thread_url_v of
                JStr turl \<Rightarrow>
                  if strip turl = [] then no_thread_url
                  else
                    (case dialogues_v of
                       JObj ds \<Rightarrow>
                         (case scrape_thread_posts e turl (max_pages ar) of
                            (Inl err, reqs) \<Rightarrow> (Inl err, w\<lparr>requests := requests w @ reqs\<rparr>)
                          | (Inr posts, reqs) \<Rightarrow>
                              (case dialogues_loop posts ds [] [] [] of
                                 Inl err \<Rightarrow> (Inl err, w\<lparr>requests := requests w @ reqs\<rparr>)
                               | Inr (rehydrated_dialogues, missing_info, speaker_map) \<Rightarrow>
                                   (Inr (),
                                    w\<lparr>requests := requests w @ reqs,
                                      files := AList.update (output_path ar)
                                        \<lparr>format = ''mediavida_dialogue_text_v2_tuples'',
                                         source = ''mediavida'',
                                         thread_id = obj_get kvs ''thread_id'',
                                         thread_url = turl,
                                         snapshot_date = obj_get kvs ''snapshot_date'',
                                         rehydrated_at = today ar,
                                         turn_representation =
                                           ''[speaker_letter, text] (null if missing)'',
                                         dialogues = rehydrated_dialogues,
                                         missing = missing_info,
                                         notice = ''This file contains user-generated content retrieved at runtime from Mediavida. Do not redistribute.''\<rparr>
                                        (files w)\<rparr>)))
                     | _ \<Rightarrow> no_dialogues)
              | _ \<Rightarrow> no_thread_url)
      | _ \<Rightarrow> (Inl AttributeError, w))"

section \<open>Notions used in the statements\<close>

text \<open>The label of a non-negative index, without the error wrapper.\<close>

definition letters_of :: "nat \<Rightarrow> string" where
  "letters_of i = rev (letters_loop i [])"

text \<open>
  The value of a string of capital letters read as a bijective base-26 numeral, with
  digits \<open>A = 1\<close> to \<open>Z = 26\<close>: the position of the string in the sequence
  A, B, ..., Z, AA, AB, ..., counted from one.
\<close>

definition bij26_value :: "string \<Rightarrow> nat" where
  "bij26_value s = foldl (\<lambda>acc c. acc * 26 + ((of_char c :: nat) - 64)) 0 s"

definition is_upper :: "char \<Rightarrow> bool" where
  "is_upper c = (let n = (of_char c :: nat) in 65 \<le> n \<and> n \<le> 90)"

text \<open>
  A run of the anonymizer: the tokens are presented to \<^verbatim>\<open>_assign_speaker\<close> one after the
  other, on the same dict; the labels returned are collected in order.
\<close>

fun assign_all ::
  "string option list \<Rightarrow> speaker_map \<Rightarrow> error + (string list \<times> speaker_map)" where
  "assign_all [] m = Inr ([], m)"
| "assign_all (t # ts) m =
     (case assign_speaker t m of
        Inl e \<Rightarrow> Inl e
      | Inr (l, m') \<Rightarrow>
          (case assign_all ts m' of
             Inl e \<Rightarrow> Inl e
           | Inr (ls, m'') \<Rightarrow> Inr (l # ls, m'')))"

text \<open>An author value that is missing, empty or made of whitespace only.\<close>

definition blank_author :: "string option \<Rightarrow> bool" where
  "blank_author t = (case t of None \<Rightarrow> True | Some s \<Rightarrow> \<forall>c \<in> set s. isspace c)"

text \<open>
  The invariant of the speaker map: the labels in insertion order are those of
  0, 1, 2, ..., and no key occurs twice.
\<close>

definition labelled :: "speaker_map \<Rightarrow> bool" where
  "labelled m = (map snd m = map letters_of [0..<length m] \<and> distinct (map fst m))"

text \<open>
  The shape of a cleaned text: every whitespace character is a space, and no space is
  followed by whitespace.
\<close>

fun ws_norm :: "string \<Rightarrow> bool" where
  "ws_norm [] = True"
| "ws_norm (c # cs) =
     ((isspace c \<longrightarrow> c = CHR '' '' \<and> (case cs of [] \<Rightarrow> True | d # _ \<Rightarrow> \<not> isspace d))
      \<and> ws_norm cs)"


text \<open>Post maps for the examples, and the number of null turns of a list.\<close>

definition example_posts :: post_map where
  "example_posts = [5 \<mapsto> (''alice'', ''hello'')]"










text \<open>
  Example inputs: a library whose \<^verbatim>\<open>urljoin\<close> returns an absolute \<^verbatim>\<open>href\<close> as it is and
  whose URLs are paths; a page with numbered links only; a thread of two pages that link
  to each other; the arguments of a run.
\<close>

definition example_lib :: urllib where
  "example_lib = \<lparr>urljoin = (\<lambda>base href. href), url_path = (\<lambda>u. u)\<rparr>"

definition numbered_page :: soup where
  "numbered_page =
     \<lparr>anchors = [\<lparr>a_rel = [], a_href = Some ''/t/3'', a_text = ''3''\<rparr>,
                 \<lparr>a_rel = [], a_href = None, a_text = ''Siguiente''\<rparr>,
                 \<lparr>a_rel = [], a_href = Some ''/t/2/'', a_text = ''2''\<rparr>,
                 \<lparr>a_rel = [], a_href = Some ''/about'', a_text = ''about''\<rparr>],
      extracted = Map.empty\<rparr>"

definition cycle_web :: "string \<Rightarrow> error + soup" where
  "cycle_web u =
     (if u = ''/t/1'' then
        Inr \<lparr>anchors = [\<lparr>a_rel = [''next''], a_href = Some ''/t/2'', a_text = ''2''\<rparr>],
             extracted = [1 \<mapsto> (''alice'', ''hello'')]\<rparr>
      else if u = ''/t/2'' then
        Inr \<lparr>anchors = [\<lparr>a_rel = [''next''], a_href = Some ''/t/1'', a_text = ''1''\<rparr>],
             extracted = [2 \<mapsto> (''bob'', ''hi'')]\<rparr>
      else Inl (RequestError ''404''))"

definition cycle_env :: env where
  "cycle_env = \<lparr>web = cycle_web, lib = example_lib\<rparr>"

definition example_args :: args where
  "example_args = \<lparr>output_path = ''out.json'', max_pages = 5, today = ''2024-01-01''\<rparr>"

definition empty_world :: world where
  "empty_world = \<lparr>requests = [], files = []\<rparr>"

section \<open>Text cleaning is idempotent\<close>

lemma isspace_space: "isspace CHR '' ''" by (simp add: isspace_def)
lemma isspace_cr: "isspace (CHR 0x0D)" by (simp add: isspace_def)

lemma ws_sub_head: "ws_sub t = d # ds \<Longrightarrow> isspace d \<Longrightarrow> t \<noteq> [] \<and> isspace (hd t)"
  by (cases t) (auto split: if_splits simp: isspace_space)

lemma dropWhile_head: "dropWhile P xs = y # ys \<Longrightarrow> \<not> P y"
  by (metis dropWhile_eq_Cons_conv)

lemma ws_norm_ws_sub: "ws_norm (ws_sub s)"
proof (induction s rule: ws_sub.induct)
  case 1
  show ?case by simp
next
  case (2 c cs)
  show ?case
  proof (cases "isspace c")
    case True
    have "\<not> isspace d" if "ws_sub (dropWhile isspace cs) = d # ds" for d ds
    proof
      assume "isspace d"
      from ws_sub_head[OF that this] obtain y ys where "dropWhile isspace cs = y # ys" "isspace y"
        by (cases "dropWhile isspace cs") auto
      then show False using dropWhile_head by metis
    qed
    with True 2 show ?thesis by (auto split: list.splits)
  next
    case False
    with 2 show ?thesis by simp
  qed
qed

lemma ws_norm_fix: "ws_norm t \<Longrightarrow> ws_sub t = t"
proof (induction t)
  case Nil
  show ?case by simp
next
  case (Cons c cs)
  then have ih: "ws_sub cs = cs" by simp
  show ?case
  proof (cases "isspace c")
    case True
    with Cons.prems have c: "c = CHR '' ''" and "cs = [] \<or> \<not> isspace (hd cs)"
      by (auto split: list.splits)
    then have "dropWhile isspace cs = cs" by (cases cs) auto
    with True c ih show ?thesis by simp
  next
    case False
    with ih show ?thesis by simp
  qed
qed

lemma ws_norm_append: "ws_norm (xs @ ys) \<Longrightarrow> ws_norm xs \<and> ws_norm ys"
proof (induction xs)
  case Nil
  then show ?case by simp
next
  case (Cons c cs)
  then have ih: "ws_norm cs \<and> ws_norm ys" by simp
  from Cons.prems have "isspace c \<longrightarrow> c = CHR '' '' \<and> (case cs of [] \<Rightarrow> True | d # _ \<Rightarrow> \<not> isspace d)"
    by (cases cs) simp_all
  with ih show ?case by simp
qed

lemma ws_norm_no_cr: "ws_norm t \<Longrightarrow> c \<in> set t \<Longrightarrow> isspace c \<Longrightarrow> c = CHR '' ''"
  by (induction t) auto

lemma strip_suffix:
  "dropWhile isspace s = strip s @ rev (takeWhile isspace (rev (dropWhile isspace s)))"
proof -
  define u where "u = dropWhile isspace s"
  have "rev (rev u) = rev (takeWhile isspace (rev u) @ dropWhile isspace (rev u))"
    by (simp only: takeWhile_dropWhile_id)
  then have "u = rev (dropWhile isspace (rev u)) @ rev (takeWhile isspace (rev u))"
    by (simp only: rev_append rev_rev_ident)
  then show ?thesis by (simp add: strip_def u_def)
qed

lemma ws_norm_strip:
  assumes "ws_norm t"
  shows "ws_norm (strip t)"
proof -
  have "t = takeWhile isspace t @ dropWhile isspace t" by simp
  with assms have "ws_norm (dropWhile isspace t)"
    using ws_norm_append[of "takeWhile isspace t" "dropWhile isspace t"] by simp
  then have "ws_norm (strip t @ rev (takeWhile isspace (rev (dropWhile isspace t))))"
    using strip_suffix[of t] by simp
  then show ?thesis using ws_norm_append by blast
qed

lemma strip_head: "strip s = y # ys \<Longrightarrow> \<not> isspace y"
  using strip_suffix[of s] dropWhile_head[of isspace s y] by simp

lemma strip_last:
  assumes "strip s \<noteq> []"
  shows "\<not> isspace (last (strip s))"
proof -
  define v where "v = dropWhile isspace (rev (dropWhile isspace s))"
  from assms have "v \<noteq> []" by (simp add: strip_def v_def)
  then have "\<not> isspace (hd v)" unfolding v_def by (rule hd_dropWhile)
  moreover have "last (strip s) = hd v" using \<open>v \<noteq> []\<close> by (simp add: strip_def v_def last_rev)
  ultimately show ?thesis by simp
qed

lemma strip_Nil: "strip [] = []"
  by (simp add: strip_def)

lemma strip_fix:
  assumes "t = [] \<or> (\<not> isspace (hd t) \<and> \<not> isspace (last t))"
  shows "strip t = t"
proof (cases t)
  case Nil
  then show ?thesis by (simp add: strip_Nil)
next
  case (Cons a list)
  with assms have h: "\<not> isspace (hd t)" and l: "\<not> isspace (last t)" by auto
  from Cons h have 1: "dropWhile isspace t = t" by simp
  from Cons have "rev t \<noteq> []" by simp
  moreover from l have "\<not> isspace (hd (rev t))" by (simp add: hd_rev)
  ultimately have 2: "dropWhile isspace (rev t) = rev t" by (cases "rev t") auto
  show ?thesis unfolding strip_def 1 2 by simp
qed

lemma strip_idem: "strip (strip s) = strip s"
proof (cases "strip s")
  case Nil
  then show ?thesis by (simp add: strip_Nil)
next
  case (Cons y ys)
  have "\<not> isspace (hd (strip s))" using strip_head[OF Cons] Cons by simp
  moreover have "\<not> isspace (last (strip s))" using strip_last[of s] Cons by simp
  ultimately show ?thesis by (intro strip_fix) simp
qed

lemma replace_crlf_fix: "CHR 0x0D \<notin> set t \<Longrightarrow> replace_crlf t = t"
  by (induction t rule: replace_crlf.induct) auto

lemma replace_cr_fix: "CHR 0x0D \<notin> set t \<Longrightarrow> replace_cr t = t"
  by (induction t) (auto simp: replace_cr_def)

lemma ws_norm_cr_free: "ws_norm t \<Longrightarrow> CHR 0x0D \<notin> set t"
  using ws_norm_no_cr[of t "CHR 0x0D"] isspace_cr by auto

text \<open>
  Claim C8. For every string \<open>s\<close>, cleaning the cleaned text gives the cleaned text
  again: \<open>clean (clean s) = clean s\<close>. The argument \<^verbatim>\<open>None\<close> is cleaned to the empty
  string, which is a fixed point too.
\<close>

theorem clean_text_idempotent:
  "clean_text (Some (clean_text raw)) = clean_text raw"
proof (cases raw)
  case None
  show ?thesis unfolding None by (simp add: clean_text_def replace_cr_def strip_Nil)
next
  case (Some s)
  define t where "t = clean_text (Some s)"
  have n: "ws_norm t"
    unfolding t_def clean_text_def by (simp add: ws_norm_strip ws_norm_ws_sub)
  have st: "strip t = t"
    unfolding t_def clean_text_def by (simp add: strip_idem)
  have "clean_text (Some t) = t"
    using n st
    by (simp add: clean_text_def replace_crlf_fix replace_cr_fix ws_norm_cr_free ws_norm_fix)
  then show ?thesis by (simp add: t_def Some)
qed

section \<open>The speaker labels\<close>

declare letters_loop.simps [simp del]

lemma letters_loop_unfold:
  "letters_loop i acc =
     (if i div 26 = 0 then acc @ [char_of (65 + i mod 26)]
      else letters_loop (i div 26 - 1) (acc @ [char_of (65 + i mod 26)]))"
  by (subst letters_loop.simps) (simp add: Let_def)

lemma letters_loop_acc: "letters_loop i acc = acc @ letters_loop i []"
proof (induction i arbitrary: acc rule: less_induct)
  case (less i)
  show ?case
  proof (cases "i div 26 = 0")
    case True
    then show ?thesis by (simp add: letters_loop_unfold[of i])
  next
    case False
    then have lt: "i div 26 - 1 < i" by linarith
    have "letters_loop i acc = letters_loop (i div 26 - 1) (acc @ [char_of (65 + i mod 26)])"
      using False by (simp add: letters_loop_unfold[of i acc])
    also have "\<dots> = (acc @ [char_of (65 + i mod 26)]) @ letters_loop (i div 26 - 1) []"
      by (rule less.IH[OF lt])
    also have "\<dots> = acc @ letters_loop (i div 26 - 1) [char_of (65 + i mod 26)]"
      using less.IH[OF lt, of "[char_of (65 + i mod 26)]"] by simp
    also have "\<dots> = acc @ letters_loop i []"
      using False by (simp add: letters_loop_unfold[of i "[]"])
    finally show ?thesis .
  qed
qed

lemma letters_of_unfold:
  "letters_of i =
     (if i div 26 = 0 then [] else letters_of (i div 26 - 1)) @ [char_of (65 + i mod 26)]"
proof (cases "i div 26 = 0")
  case True
  then show ?thesis by (simp add: letters_of_def letters_loop_unfold[of i])
next
  case False
  have "letters_loop i [] = letters_loop (i div 26 - 1) [char_of (65 + i mod 26)]"
    using False by (simp add: letters_loop_unfold[of i "[]"])
  also have "\<dots> = [char_of (65 + i mod 26)] @ letters_loop (i div 26 - 1) []"
    by (rule letters_loop_acc)
  finally show ?thesis using False by (simp add: letters_of_def)
qed

lemma bij26_value_snoc: "bij26_value (s @ [c]) = bij26_value s * 26 + ((of_char c :: nat) - 64)"
  by (simp add: bij26_value_def)

lemma of_char_letter: "r < 26 \<Longrightarrow> (of_char (char_of (65 + r :: nat)) :: nat) = 65 + r"
  by (simp add: of_char_of)

lemma bij26_value_letters: "bij26_value (letters_of i) = i + 1"
proof (induction i rule: less_induct)
  case (less i)
  have r: "i mod 26 < 26" by simp
  show ?case
  proof (cases "i div 26 = 0")
    case True
    then have "i mod 26 = i" by (simp add: div_eq_0_iff)
    with True r show ?thesis
      by (subst letters_of_unfold) (simp add: bij26_value_snoc of_char_letter bij26_value_def)
  next
    case False
    then have lt: "i div 26 - 1 < i" by linarith
    have "bij26_value (letters_of i) = bij26_value (letters_of (i div 26 - 1)) * 26 + (i mod 26 + 1)"
      using False r by (subst letters_of_unfold) (simp add: bij26_value_snoc of_char_letter)
    also have "\<dots> = (i div 26 - 1 + 1) * 26 + (i mod 26 + 1)"
      by (simp only: less.IH[OF lt])
    also have "\<dots> = i + 1" using False by simp
    finally show ?thesis .
  qed
qed

lemma letters_of_inj: "letters_of i = letters_of j \<Longrightarrow> i = j"
proof -
  assume "letters_of i = letters_of j"
  then have "bij26_value (letters_of i) = bij26_value (letters_of j)" by simp
  then show "i = j" by (simp add: bij26_value_letters)
qed

lemma letters_of_upper: "c \<in> set (letters_of i) \<Longrightarrow> is_upper c"
proof (induction i rule: less_induct)
  case (less i)
  have r: "i mod 26 < 26" by simp
  have last: "is_upper (char_of (65 + i mod 26))"
    using r by (simp add: is_upper_def of_char_letter)
  show ?case
  proof (cases "i div 26 = 0")
    case True
    with less.prems last show ?thesis by (subst (asm) letters_of_unfold) simp
  next
    case False
    then have lt: "i div 26 - 1 < i" by linarith
    from less.prems False have "c \<in> set (letters_of (i div 26 - 1)) \<or> c = char_of (65 + i mod 26)"
      by (subst (asm) letters_of_unfold) auto
    with less.IH[OF lt] last show ?thesis by auto
  qed
qed

lemma index_to_letters_nat: "index_to_letters (int i) = Inr (letters_of i)"
  by (simp add: index_to_letters_def letters_of_def)

lemma letters_of_nonempty: "letters_of i \<noteq> []"
  by (subst letters_of_unfold) simp


lemma labelled_Nil: "labelled []"
  by (simp add: labelled_def)

lemma labelled_snoc:
  assumes "labelled m" and "map_of m a = None"
  shows "labelled (m @ [(a, letters_of (length m))])"
proof -
  from assms(2) have "a \<notin> fst ` set m" by (simp add: map_of_eq_None_iff)
  with assms(1) show ?thesis by (simp add: labelled_def)
qed

lemma assign_speaker_hit:
  "map_of m (author_key t) = Some l \<Longrightarrow> assign_speaker t m = Inr (l, m)"
  by (simp add: assign_speaker_def)

lemma assign_speaker_miss:
  "map_of m (author_key t) = None \<Longrightarrow>
   assign_speaker t m = Inr (letters_of (length m), m @ [(author_key t, letters_of (length m))])"
  by (simp add: assign_speaker_def index_to_letters_nat)

lemma assign_speaker_labelled:
  assumes "labelled m"
  shows "\<exists>l m'. assign_speaker t m = Inr (l, m') \<and> labelled m' \<and> map_of m' (author_key t) = Some l"
proof (cases "map_of m (author_key t)")
  case None
  have "map_of (m @ [(author_key t, letters_of (length m))]) (author_key t)
          = Some (letters_of (length m))"
    using None by (simp add: map_add_def)
  with labelled_snoc[OF assms None] None show ?thesis
    by (simp add: assign_speaker_miss)
next
  case (Some l)
  with assms show ?thesis by (simp add: assign_speaker_hit)
qed

lemma assign_all_labelled:
  "labelled m \<Longrightarrow> \<exists>ls m'. assign_all ts m = Inr (ls, m') \<and> labelled m'"
proof (induction ts arbitrary: m)
  case Nil
  then show ?case by simp
next
  case (Cons t ts)
  from assign_speaker_labelled[OF Cons.prems, of t] obtain l m1
    where 1: "assign_speaker t m = Inr (l, m1)" and 2: "labelled m1" by blast
  from Cons.IH[OF 2] obtain ls m2 where 3: "assign_all ts m1 = Inr (ls, m2)" and 4: "labelled m2"
    by blast
  from 1 3 4 show ?case by simp
qed

lemma labelled_distinct_labels:
  assumes "labelled m"
  shows "distinct (map snd m)"
proof -
  have "inj_on letters_of (set [0..<length m])"
    by (rule inj_onI) (rule letters_of_inj)
  then have "distinct (map letters_of [0..<length m])"
    by (simp add: distinct_map)
  with assms show ?thesis by (simp add: labelled_def)
qed

lemma labelled_no_reuse:
  assumes "labelled m" and "map_of m a = Some l" and "map_of m b = Some l"
  shows "a = b"
proof -
  from assms(2,3) have ab: "(a, l) \<in> set m" "(b, l) \<in> set m"
    by (auto dest: map_of_SomeD)
  from labelled_distinct_labels[OF assms(1)] have "inj_on snd (set m)"
    by (simp add: distinct_map)
  then have "(a, l) = (b, l)"
    by (rule inj_onD) (use ab in simp_all)
  then show ?thesis by simp
qed

lemma assign_all_fresh:
  assumes "labelled m"
    and "distinct (map author_key toks)"
    and "set (map author_key toks) \<inter> fst ` set m = {}"
  shows "assign_all toks m =
           Inr (map letters_of [length m..<length m + length toks],
                m @ zip (map author_key toks) (map letters_of [length m..<length m + length toks]))"
  using assms
proof (induction toks arbitrary: m)
  case Nil
  then show ?case by simp
next
  case (Cons t ts)
  let ?m1 = "m @ [(author_key t, letters_of (length m))]"
  from Cons.prems(3) have none: "map_of m (author_key t) = None"
    by (simp add: map_of_eq_None_iff)
  have step: "assign_speaker t m = Inr (letters_of (length m), ?m1)"
    by (rule assign_speaker_miss[OF none])
  have l1: "labelled ?m1" by (rule labelled_snoc[OF Cons.prems(1) none])
  have d1: "distinct (map author_key ts)" using Cons.prems(2) by simp
  have f1: "set (map author_key ts) \<inter> fst ` set ?m1 = {}"
    using Cons.prems(2,3) by auto
  have "[length m..<length m + Suc (length ts)]
          = length m # [Suc (length m)..<length m + Suc (length ts)]"
    by (rule upt_conv_Cons) simp
  then have up: "[length m..<length m + length (t # ts)] = length m # [length ?m1..<length ?m1 + length ts]"
    by simp
  show ?case
    unfolding up using step Cons.IH[OF l1 d1 f1] by simp
qed


lemma assign_speaker_key:
  assumes "assign_speaker x m = Inr (l, m1)"
  shows "map_of m1 (author_key x) = Some l"
proof (cases "map_of m (author_key x)")
  case None
  with assms have "m1 = m @ [(author_key x, l)]"
    by (auto simp: assign_speaker_miss)
  with None show ?thesis by (simp add: map_add_def)
next
  case (Some l')
  with assms show ?thesis by (simp add: assign_speaker_hit)
qed

lemma assign_speaker_keeps:
  assumes "assign_speaker x m = Inr (l', m1)" and "map_of m k = Some l"
  shows "map_of m1 k = Some l"
proof (cases "map_of m (author_key x)")
  case None
  with assms(1) have "m1 = m @ [(author_key x, l')]"
    by (auto simp: assign_speaker_miss)
  with assms(2) show ?thesis by (simp add: map_add_def)
next
  case (Some l'')
  with assms show ?thesis by (simp add: assign_speaker_hit)
qed

lemma assign_all_keeps:
  "assign_all ts m = Inr (ls, m') \<Longrightarrow> map_of m k = Some l \<Longrightarrow> map_of m' k = Some l"
proof (induction ts arbitrary: m ls)
  case Nil
  then show ?case by simp
next
  case (Cons t ts)
  from Cons.prems(1) obtain l1 m1 ls1 where
    1: "assign_speaker t m = Inr (l1, m1)" and 2: "assign_all ts m1 = Inr (ls1, m')"
    by (auto split: sum.splits)
  from assign_speaker_keeps[OF 1 Cons.prems(2)] have "map_of m1 k = Some l" .
  from Cons.IH[OF 2 this] show ?case .
qed

lemma blank_strip:
  assumes "\<forall>c \<in> set s. isspace c"
  shows "strip s = []"
proof -
  from assms have d: "dropWhile isspace s = []" by simp
  show ?thesis unfolding strip_def d by simp
qed

lemma blank_author_key: "blank_author t \<Longrightarrow> author_key t = ''__unknown__''"
  by (cases t) (simp_all add: blank_author_def author_key_def blank_strip)

text \<open>
  Claim C1. When \<open>N\<close> tokens with pairwise distinct normalized forms are presented in
  order to the anonymizer, starting from the empty map, no call fails and the labels
  returned are those of the indices \<open>0, ..., N - 1\<close> in this order: pairwise distinct,
  the \<open>i\<close>-th one being the string of capital letters whose bijective base-26 value is
  \<open>i + 1\<close> (so 0 gives A, 25 gives Z, 26 gives AA), and the map holds it for the
  \<open>i\<close>-th token. In every run from the empty map, whatever the tokens, one label is
  never held by two different keys.
\<close>

theorem speaker_label_bijection:
  assumes "distinct (map author_key toks)"
  shows "\<exists>labels m.
           assign_all toks [] = Inr (labels, m)
         \<and> (map Inr labels :: (error + string) list)
             = map (\<lambda>i. index_to_letters (int i)) [0..<length toks]
         \<and> distinct labels
         \<and> (\<forall>i < length toks.
               bij26_value (labels ! i) = i + 1
             \<and> (\<forall>c \<in> set (labels ! i). is_upper c)
             \<and> map_of m (author_key (toks ! i)) = Some (labels ! i))
         \<and> index_to_letters 0 = Inr ''A''
         \<and> index_to_letters 25 = Inr ''Z''
         \<and> index_to_letters 26 = Inr ''AA''
         \<and> (\<forall>ts ls m' a b l.
               assign_all ts [] = Inr (ls, m') \<and> map_of m' a = Some l \<and> map_of m' b = Some l
               \<longrightarrow> a = b)"
proof -
  let ?n = "length toks"
  let ?labels = "map letters_of [0..<?n]"
  let ?m = "zip (map author_key toks) ?labels"
  have run: "assign_all toks [] = Inr (?labels, ?m)"
    using assign_all_fresh[OF labelled_Nil assms] by simp
  have enc: "(map Inr ?labels :: (error + string) list)
               = map (\<lambda>i. index_to_letters (int i)) [0..<?n]"
    by (simp add: index_to_letters_nat)
  have "inj_on letters_of (set [0..<?n])"
    by (rule inj_onI) (rule letters_of_inj)
  then have dist: "distinct ?labels" by (simp add: distinct_map)
  have per: "\<forall>i < ?n. bij26_value (?labels ! i) = i + 1
                 \<and> (\<forall>c \<in> set (?labels ! i). is_upper c)
                 \<and> map_of ?m (author_key (toks ! i)) = Some (?labels ! i)"
  proof (intro allI impI conjI)
    fix i assume i: "i < ?n"
    then show "bij26_value (?labels ! i) = i + 1" by (simp add: bij26_value_letters)
    from i show "\<forall>c \<in> set (?labels ! i). is_upper c" by (simp add: letters_of_upper)
    have "map_of (zip (map author_key toks) ?labels) (map author_key toks ! i) = Some (?labels ! i)"
      by (rule map_of_zip_nth) (use assms i in simp_all)
    with i show "map_of ?m (author_key (toks ! i)) = Some (?labels ! i)" by simp
  qed
  have a0: "index_to_letters 0 = Inr ''A''"
    by code_simp
  have a25: "index_to_letters 25 = Inr ''Z''"
    by code_simp
  have a26: "index_to_letters 26 = Inr ''AA''"
    by code_simp
  have reuse: "\<forall>ts ls m' a b l.
      assign_all ts [] = Inr (ls, m') \<and> map_of m' a = Some l \<and> map_of m' b = Some l \<longrightarrow> a = b"
  proof (intro allI impI)
    fix ts ls m' a b l
    assume h: "assign_all ts [] = Inr (ls, m') \<and> map_of m' a = Some l \<and> map_of m' b = Some l"
    from assign_all_labelled[OF labelled_Nil, of ts] h have "labelled m'" by auto
    with h show "a = b" using labelled_no_reuse by blast
  qed
  from run enc dist per a0 a25 a26 reuse show ?thesis by blast
qed

theorem speaker_label_bijection_witness:
  "distinct (map author_key [Some ''bob'', Some '' alice '', None])
   \<and> (\<exists>labels m. assign_all [Some ''bob'', Some '' alice '', None] [] = Inr (labels, m)
         \<and> (map Inr labels :: (error + string) list)
             = map (\<lambda>i. index_to_letters (int i))
                 [0..<length [Some ''bob'', Some '' alice '', None]]
         \<and> distinct labels)"
proof -
  have h: "distinct (map author_key [Some ''bob'', Some '' alice '', None])"
    by code_simp
  from speaker_label_bijection[OF h] h show ?thesis by blast
qed

text \<open>
  Claim C9. The anonymizer looks a token up after stripping it: when \<open>x\<close> got the label
  \<open>l\<close> and any further tokens were presented afterwards, a token \<open>y\<close> that equals
  \<open>x\<close> after stripping gets \<open>l\<close> again and leaves the map as it is. The same holds
  when both are missing, empty or whitespace only: they are looked up under the sentinel
  \<^verbatim>\<open>__unknown__\<close>.
\<close>

theorem author_token_normalization:
  assumes "assign_speaker x m0 = Inr (l, m1)"
    and "assign_all mid m1 = Inr (ls, m2)"
    and "(\<exists>a b. x = Some a \<and> y = Some b \<and> strip a = strip b)
         \<or> (blank_author x \<and> blank_author y)"
  shows "assign_speaker y m2 = Inr (l, m2)
       \<and> (blank_author x \<longrightarrow> author_key x = ''__unknown__'')"
proof -
  from assms(3) have k: "author_key y = author_key x"
  proof
    assume "\<exists>a b. x = Some a \<and> y = Some b \<and> strip a = strip b"
    then show ?thesis by (auto simp: author_key_def)
  next
    assume "blank_author x \<and> blank_author y"
    then show ?thesis by (simp add: blank_author_key)
  qed
  from assign_speaker_key[OF assms(1)] have "map_of m1 (author_key x) = Some l" .
  from assign_all_keeps[OF assms(2) this] k have "map_of m2 (author_key y) = Some l" by simp
  then have "assign_speaker y m2 = Inr (l, m2)" by (rule assign_speaker_hit)
  then show ?thesis by (simp add: blank_author_key)
qed


theorem author_token_normalization_witness:
  "assign_speaker (Some ''alice'') [] = Inr (''A'', [(''alice'', ''A'')])
   \<and> assign_all [Some ''bob''] [(''alice'', ''A'')]
       = Inr ([''B''], [(''alice'', ''A''), (''bob'', ''B'')])
   \<and> strip ''alice'' = strip ''  alice  ''
   \<and> assign_speaker (Some ''  alice  '') [(''alice'', ''A''), (''bob'', ''B'')]
       = Inr (''A'', [(''alice'', ''A''), (''bob'', ''B'')])"
proof -
  have 1: "assign_speaker (Some ''alice'') [] = Inr (''A'', [(''alice'', ''A'')])"
    by code_simp
  have 2: "assign_all [Some ''bob''] [(''alice'', ''A'')]
             = Inr ([''B''], [(''alice'', ''A''), (''bob'', ''B'')])"
    by code_simp
  have 3: "strip ''alice'' = strip ''  alice  ''"
    by code_simp
  then have 4: "(\<exists>a b. Some ''alice'' = Some a \<and> Some ''  alice  '' = Some b \<and> strip a = strip b)
         \<or> (blank_author (Some ''alice'') \<and> blank_author (Some ''  alice  ''))"
    by blast
  from author_token_normalization[OF 1 2 4] 1 2 3 show ?thesis by blast
qed

section \<open>The loop over a chain\<close>

text \<open>
  \<^verbatim>\<open>int()\<close> skips a non-breaking space but not a file separator: the ID \<^verbatim>\<open>"\x1c5"\<close> does
  not parse and is a miss, although \<^verbatim>\<open>"\x1c5".strip()\<close> is \<^verbatim>\<open>"5"\<close>.
\<close>

lemma py_int_separator:
  "py_int (JStr [CHR 0x1C, CHR ''5'']) = Inl (ValueError ''invalid literal for int()'')"
  by code_simp

lemma py_int_nbsp: "py_int (JStr [CHR 0xA0, CHR ''5'', CHR 0x85]) = Inr 5"
  by code_simp

lemma chain_loop_separator:
  "chain_loop example_posts [JStr [CHR 0x1C, CHR ''5'']] [] 0 [] = Inr ([None], 1, [])"
  by code_simp

lemma map_of_append_keeps: "map_of m k = Some l \<Longrightarrow> map_of (m @ suf) k = Some l"
  by (simp add: map_add_def)

lemma assign_speaker_total:
  "\<exists>l suf. assign_speaker x sm = Inr (l, sm @ suf) \<and> map_of (sm @ suf) (author_key x) = Some l"
proof (cases "map_of sm (author_key x)")
  case None
  then have "assign_speaker x sm
      = Inr (letters_of (length sm), sm @ [(author_key x, letters_of (length sm))])"
    by (rule assign_speaker_miss)
  moreover have "map_of (sm @ [(author_key x, letters_of (length sm))]) (author_key x)
      = Some (letters_of (length sm))"
    using None by (simp add: map_add_def)
  ultimately show ?thesis by blast
next
  case (Some l)
  then have "assign_speaker x sm = Inr (l, sm @ [])" by (simp add: assign_speaker_hit)
  with Some show ?thesis by (metis append_Nil2)
qed



lemma chain_loop_empty_text:
  "py_int cid = Inr i \<Longrightarrow> posts i = Some (a, raw) \<Longrightarrow> assign_speaker (Some a) sm = Inr (l, sm1) \<Longrightarrow>
   clean_text (Some raw) = [] \<Longrightarrow>
   chain_loop posts (cid # rest) out miss sm = chain_loop posts rest (out @ [None]) (miss + 1) sm1"
  by simp

lemma chain_loop_turn:
  "py_int cid = Inr i \<Longrightarrow> posts i = Some (a, raw) \<Longrightarrow> assign_speaker (Some a) sm = Inr (l, sm1) \<Longrightarrow>
   clean_text (Some raw) \<noteq> [] \<Longrightarrow>
   chain_loop posts (cid # rest) out miss sm
     = chain_loop posts rest (out @ [Some [l, clean_text (Some raw)]]) miss sm1"
  by simp











lemma trunc_rat_bounds:
  "\<bar>of_int (trunc_rat q)\<bar> \<le> \<bar>q\<bar> \<and> \<bar>q - of_int (trunc_rat q)\<bar> < 1"
proof (cases "0 \<le> q")
  case True
  then have t: "trunc_rat q = \<lfloor>q\<rfloor>" by (simp add: trunc_rat_def)
  have 1: "of_int \<lfloor>q\<rfloor> \<le> q" by (rule of_int_floor_le)
  have "q < of_int (\<lfloor>q\<rfloor> + 1)" using floor_correct[of q] by blast
  then have 2: "q < of_int \<lfloor>q\<rfloor> + 1" by simp
  have 3: "(0::rat) \<le> of_int \<lfloor>q\<rfloor>" using True by simp
  from 1 2 3 True show ?thesis unfolding t by linarith
next
  case False
  then have t: "trunc_rat q = \<lceil>q\<rceil>" by (simp add: trunc_rat_def)
  have 1: "q \<le> of_int \<lceil>q\<rceil>" by (rule le_of_int_ceiling)
  have 2: "of_int \<lceil>q\<rceil> - 1 < q" using ceiling_correct[of q] by blast
  have "\<lceil>q\<rceil> \<le> 0" using False by (simp add: ceiling_le_zero)
  then have 3: "of_int \<lceil>q\<rceil> \<le> (0::rat)" by simp
  from 1 2 3 False show ?thesis unfolding t by linarith
qed

text \<open>
  Claim C10. A chain entry that is a finite float is not a miss because of its fractional
  part: \<^verbatim>\<open>int()\<close> succeeds on it and truncates toward zero (the result is no larger in
  absolute value and less than one away), and when the post with the truncated number
  exists with a non-empty cleaned text, the turn is that post's. The float that
  \<^verbatim>\<open>json.loads\<close> reads from \<^verbatim>\<open>5.9\<close> is \<open>3321404725185741 / 2^49\<close>; it resolves to post 5.
\<close>

theorem fractional_ids_truncate:
  assumes "posts (trunc_rat q) = Some (a, raw)" and "clean_text (Some raw) \<noteq> []"
  shows "py_int (JFloat (Finite q)) = Inr (trunc_rat q)
       \<and> \<bar>of_int (trunc_rat q)\<bar> \<le> \<bar>q\<bar> \<and> \<bar>q - of_int (trunc_rat q)\<bar> < 1
       \<and> (\<exists>letter sm'. assign_speaker (Some a) sm = Inr (letter, sm')
             \<and> chain_loop posts [JFloat (Finite q)] [] 0 sm
                 = Inr ([Some [letter, clean_text (Some raw)]], 0, sm'))"
proof -
  from assign_speaker_total[of "Some a" sm] obtain l suf where
    as: "assign_speaker (Some a) sm = Inr (l, sm @ suf)" by blast
  have "chain_loop posts [JFloat (Finite q)] [] 0 sm
          = Inr ([Some [l, clean_text (Some raw)]], 0, sm @ suf)"
    using assms as by simp
  with as trunc_rat_bounds[of q] show ?thesis by simp
qed

theorem fractional_ids_truncate_witness:
  "example_posts (trunc_rat (3321404725185741 / 562949953421312)) = Some (''alice'', ''hello'')
   \<and> clean_text (Some ''hello'') \<noteq> []
   \<and> py_int (JFloat (Finite (3321404725185741 / 562949953421312))) = Inr 5
   \<and> (\<exists>letter sm'. chain_loop example_posts [JFloat (Finite (3321404725185741 / 562949953421312))] [] 0 []
          = Inr ([Some [letter, clean_text (Some ''hello'')]], 0, sm'))"
proof -
  have "\<lfloor>3321404725185741 / 562949953421312 :: rat\<rfloor> = 5"
    by (rule floor_unique) simp_all
  then have t: "trunc_rat (3321404725185741 / 562949953421312) = 5"
    by (simp add: trunc_rat_def)
  have a: "example_posts (trunc_rat (3321404725185741 / 562949953421312)) = Some (''alice'', ''hello'')"
    unfolding t by (simp add: example_posts_def)
  have b: "clean_text (Some ''hello'') \<noteq> []" by code_simp
  from fractional_ids_truncate[of example_posts "3321404725185741 / 562949953421312"
      "''alice''" "''hello''" "[]", OF a b] a b t
  show ?thesis by auto
qed






section \<open>Anonymity of the turns\<close>








section \<open>The pagination resolver\<close>


declare candidates_loop.simps(2) [simp del]












lemma numbered_page_next: "find_next_url example_lib ''/t/1'' numbered_page = Some ''/t/2/''"
  by code_simp


section \<open>The crawler\<close>

declare scrape_loop.simps [simp del]

lemma scrape_loop_stop:
  assumes "\<not> (url \<noteq> None \<and> the url \<noteq> [] \<and> the url \<notin> seen \<and> pages < cap)"
  shows "scrape_loop e cap url seen all_posts pages reqs = (Inr all_posts, reqs)"
  by (subst scrape_loop.simps) (simp only: assms if_False)

lemma scrape_loop_error:
  "url = Some u \<Longrightarrow> u \<noteq> [] \<Longrightarrow> u \<notin> seen \<Longrightarrow> pages < cap \<Longrightarrow> web e u = Inl err \<Longrightarrow>
   scrape_loop e cap url seen all_posts pages reqs = (Inl err, reqs @ [u])"
  by (subst scrape_loop.simps) (simp add: Let_def)

lemma scrape_loop_next:
  "url = Some u \<Longrightarrow> u \<noteq> [] \<Longrightarrow> u \<notin> seen \<Longrightarrow> pages < cap \<Longrightarrow> web e u = Inr sp \<Longrightarrow>
   scrape_loop e cap url seen all_posts pages reqs
     = scrape_loop e cap (find_next_url (lib e) u sp) (insert u seen)
         (all_posts ++ extracted sp) (pages + 1) (reqs @ [u])"
  by (subst scrape_loop.simps) (simp add: Let_def)

lemma scrape_loop_inv:
  assumes "set reqs = seen" and "distinct reqs" and "int (length reqs) = pages"
  shows "distinct (snd (scrape_loop e cap url seen all_posts pages reqs))
       \<and> int (length (snd (scrape_loop e cap url seen all_posts pages reqs)))
           \<le> max pages cap"
  using assms
proof (induction e cap url seen all_posts pages reqs rule: scrape_loop.induct)
  case (1 e cap url seen all_posts pages reqs)
  show ?case
  proof (cases "url \<noteq> None \<and> the url \<noteq> [] \<and> the url \<notin> seen \<and> pages < cap")
    case False
    then have "scrape_loop e cap url seen all_posts pages reqs = (Inr all_posts, reqs)"
      by (rule scrape_loop_stop)
    with "1.prems" show ?thesis by simp
  next
    case True
    then obtain u where u: "url = Some u" "u \<noteq> []" "u \<notin> seen" "pages < cap" by auto
    show ?thesis
    proof (cases "web e u")
      case (Inl err)
      from scrape_loop_error[OF u Inl] "1.prems" u show ?thesis by simp
    next
      case (Inr sp)
      have i1: "set (reqs @ [u]) = insert u seen" using "1.prems" by simp
      have i2: "distinct (reqs @ [u])" using "1.prems" u by simp
      have i3: "int (length (reqs @ [u])) = pages + 1" using "1.prems" by simp
      have ih: "distinct (snd (scrape_loop e cap (find_next_url (lib e) u sp) (insert u seen)
                   (all_posts ++ extracted sp) (pages + 1) (reqs @ [u])))
              \<and> int (length (snd (scrape_loop e cap (find_next_url (lib e) u sp) (insert u seen)
                   (all_posts ++ extracted sp) (pages + 1) (reqs @ [u]))))
                  \<le> max (pages + 1) cap"
      proof (rule "1.IH"[OF True _ refl refl refl])
        show "u = the url" using u by simp
        show "web e u = Inr sp" by (rule Inr)
        show "set (reqs @ [u]) = insert u seen" by (rule i1)
        show "distinct (reqs @ [u])" by (rule i2)
        show "int (length (reqs @ [u])) = pages + 1" by (rule i3)
      qed
      from u have "max (pages + 1) cap = max pages cap" by simp
      with ih show ?thesis unfolding scrape_loop_next[OF u Inr] by simp
    qed
  qed
qed

text \<open>
  Claim C7. The loop of the crawler is a total function: its recursion is accepted with
  the measure \<open>max_pages - pages\<close>, whatever the pages link to. For every network, start
  URL and page cap, the requests it issues are pairwise distinct (a URL in the visited set
  is not fetched again) and at most as many as the cap (none when the cap is not
  positive). On two pages that link to each other, with a cap of 5, exactly the two URLs
  are fetched, once each.
\<close>

theorem crawler_terminates:
  "\<exists>res reqs. scrape_thread_posts e start_url page_cap = (res, reqs)
     \<and> distinct reqs
     \<and> int (length reqs) \<le> max 0 page_cap
     \<and> snd (scrape_thread_posts cycle_env ''/t/1'' 5) = [''/t/1'', ''/t/2'']"
proof -
  obtain res reqs where r: "scrape_thread_posts e start_url page_cap = (res, reqs)"
    by (cases "scrape_thread_posts e start_url page_cap")
  have "distinct (snd (scrape_loop e page_cap (Some start_url) {} Map.empty 0 []))
      \<and> int (length (snd (scrape_loop e page_cap (Some start_url) {} Map.empty 0 []))) \<le> max 0 page_cap"
    by (rule scrape_loop_inv) simp_all
  with r have d: "distinct reqs \<and> int (length reqs) \<le> max 0 page_cap"
    by (simp add: scrape_thread_posts_def)
  have ex: "snd (scrape_thread_posts cycle_env ''/t/1'' 5) = [''/t/1'', ''/t/2'']"
    by code_simp
  from r d ex show ?thesis by blast
qed

section \<open>The entry point\<close>

text \<open>
  Claim C5. When the input object has no \<^verbatim>\<open>thread_url\<close>, or one that is not a string, or
  a blank one, or when its \<^verbatim>\<open>dialogues\<close> is not a mapping, \<^verbatim>\<open>main\<close> raises
  \<^verbatim>\<open>ValueError\<close> and the world is the one it started in: no request was issued and no
  file was written.
\<close>

theorem fatal_input_guard:
  assumes "(\<forall>s. obj_get kvs ''thread_url'' \<noteq> JStr s)
         \<or> (\<exists>s. obj_get kvs ''thread_url'' = JStr s \<and> strip s = [])
         \<or> (\<forall>ds. obj_get kvs ''dialogues'' \<noteq> JObj ds)"
  shows "\<exists>msg. main e ar (JObj kvs) w = (Inl (ValueError msg), w)"
  using assms
  by (auto simp: main_def Let_def split: json.splits)


theorem fatal_input_guard_witness:
  "(\<forall>s. obj_get [(''dialogues'', JObj [])] ''thread_url'' \<noteq> JStr s)
   \<and> (\<exists>msg. main cycle_env example_args (JObj [(''dialogues'', JObj [])]) empty_world
          = (Inl (ValueError msg), empty_world))"
proof -
  have h: "\<forall>s. obj_get [(''dialogues'', JObj [])] ''thread_url'' \<noteq> JStr s"
    by (simp add: obj_get_def)
  then have "(\<forall>s. obj_get [(''dialogues'', JObj [])] ''thread_url'' \<noteq> JStr s)
         \<or> (\<exists>s. obj_get [(''dialogues'', JObj [])] ''thread_url'' = JStr s \<and> strip s = [])
         \<or> (\<forall>ds. obj_get [(''dialogues'', JObj [])] ''dialogues'' \<noteq> JObj ds)"
    by blast
  from fatal_input_guard[OF this, of cycle_env example_args empty_world] h
  show ?thesis by blast
qed

end
